theory Spec2Isabelle
  imports Complex_Main
begin

section \<open>Python values and failures\<close>

text \<open>
  The notebook computes with Python floats; the embedding computes with exact reals, so
  every statement below is about the arithmetic the code spells out, without rounding.
  The step counts \<open>N\<close>, \<open>M\<close> and \<open>n\<close> are Python integers (they are handed to
  \<open>range\<close>), every other argument is a real number.

  The exceptions the pricing routines can raise are values of \<open>error\<close>; a routine
  returns \<open>Inl e\<close> when the Python raises \<open>e\<close>. \<open>NotANumber\<close> is no exception:
  where numpy goes on with \<open>nan\<close> or \<open>inf\<close> (the square root of a negative number, a
  division of numpy floats by zero) the reals have no value, and the embedding stops there.
\<close>

datatype error = ZeroDivisionError | IndexError | ValueError | NotANumber

text \<open>\<open>FinDiffCall\<close> returns either a number or a string from the same function.\<close>

datatype result = Price real | Message string

definition and_then :: "error + 'a \<Rightarrow> ('a \<Rightarrow> error + 'b) \<Rightarrow> error + 'b" where
  "and_then m f = (case m of Inl e \<Rightarrow> Inl e | Inr x \<Rightarrow> f x)"

text \<open>\<open>a / b\<close> on Python numbers raises when the divisor is zero.\<close>

definition py_div :: "real \<Rightarrow> real \<Rightarrow> error + real" where
  "py_div a b = (if b = 0 then Inl ZeroDivisionError else Inr (a / b))"

text \<open>\<open>range(a, b)\<close>: the integers from \<open>a\<close> up to \<open>b - 1\<close>, empty when \<open>b \<le> a\<close>.\<close>

definition py_range :: "int \<Rightarrow> int \<Rightarrow> int list" where
  "py_range a b = [a..b - 1]"

text \<open>
  A \<open>for\<close> loop over a list of index values; the body maps the program state to a new
  state or raises, and an exception leaves the loop at once.
\<close>

fun for_loop :: "'a list \<Rightarrow> ('a \<Rightarrow> 's \<Rightarrow> error + 's) \<Rightarrow> 's \<Rightarrow> error + 's" where
  "for_loop [] body s = Inr s"
| "for_loop (x # xs) body s =
     (case body x s of Inl e \<Rightarrow> Inl e | Inr s' \<Rightarrow> for_loop xs body s')"

text \<open>
  Subscripting a list of length \<open>n\<close> with the integer \<open>i\<close>: a negative index counts
  from the end, anything outside \<open>-n \<le> i < n\<close> raises \<open>IndexError\<close>.
\<close>

definition py_index :: "nat \<Rightarrow> int \<Rightarrow> error + nat" where
  "py_index n i =
     (let k = (if i < 0 then i + int n else i)
      in if 0 \<le> k \<and> k < int n then Inr (nat k) else Inl IndexError)"

section \<open>The finite-difference grid\<close>

text \<open>
  The state of \<open>FinDiffCall\<close> during its grid phase: the list of rows \<open>c\<close>, and, as
  instrumentation, the index pairs \<open>(i, j)\<close> of every subscription \<open>c[i][j]\<close>
  performed so far (most recent first).
\<close>

record state =
  grid :: "real list list"
  accesses :: "(int \<times> int) list"

definition touch :: "int \<Rightarrow> int \<Rightarrow> state \<Rightarrow> state" where
  "touch i j st = st\<lparr>accesses := (i, j) # accesses st\<rparr>"

text \<open>The read \<open>c[i][j]\<close>.\<close>

definition getitem :: "int \<Rightarrow> int \<Rightarrow> state \<Rightarrow> error + (real \<times> state)" where
  "getitem i j st =
     and_then (py_index (length (grid st)) i) (\<lambda>p.
     and_then (py_index (length (grid st ! p)) j) (\<lambda>q.
     Inr (grid st ! p ! q, touch i j st)))"

text \<open>The write \<open>c[i][j] = v\<close>.\<close>

definition setitem :: "int \<Rightarrow> int \<Rightarrow> real \<Rightarrow> state \<Rightarrow> error + state" where
  "setitem i j v st =
     and_then (py_index (length (grid st)) i) (\<lambda>p.
     and_then (py_index (length (grid st ! p)) j) (\<lambda>q.
     Inr (touch i j (st\<lparr>grid := (grid st)[p := (grid st ! p)[q := v]]\<rparr>))))"

text \<open>
  \<^verbatim>\<open>c = [ [0 for j in range(M+1)] for i in range(N+1) ]\<close>: every row is a list of its
  own, so a write to one row changes no other row.
\<close>

definition allocate :: "int \<Rightarrow> int \<Rightarrow> state" where
  "allocate N M =
     \<lparr>grid = map (\<lambda>i. map (\<lambda>j. 0) (py_range 0 (M + 1))) (py_range 0 (N + 1)),
      accesses = []\<rparr>"

text \<open>
  \<^verbatim>\<open>for j in range(M+1): c[0][j] = max(j*delta_S - K, 0)\<close>
\<close>

definition payoff_loop :: "real \<Rightarrow> real \<Rightarrow> int \<Rightarrow> state \<Rightarrow> error + state" where
  "payoff_loop delta_S K M =
     for_loop (py_range 0 (M + 1))
       (\<lambda>j. setitem 0 j (max (real_of_int j * delta_S - K) 0))"

text \<open>
  \<^verbatim>\<open>for i in range(N+1): c[i][0] = 0; c[i][M] = S_max\<close>
\<close>

definition boundary_loop :: "real \<Rightarrow> int \<Rightarrow> int \<Rightarrow> state \<Rightarrow> error + state" where
  "boundary_loop S_max N M =
     for_loop (py_range 0 (N + 1))
       (\<lambda>i st. and_then (setitem i 0 0 st) (setitem i M S_max))"

text \<open>
  The body of the recurrence: the three reads of row \<open>i - 1\<close>, left to right, then the
  write of \<open>c[i][j]\<close>.
\<close>

definition stencil :: "real \<Rightarrow> real \<Rightarrow> real \<Rightarrow> int \<Rightarrow> real \<Rightarrow> real \<Rightarrow> real \<Rightarrow> real" where
  "stencil r sigma delta_t j a b d =
     0.5 * a * real_of_int j * delta_t * (sigma\<^sup>2 * real_of_int j - r)
     + b * (1 - r * delta_t - sigma\<^sup>2 * (real_of_int j)\<^sup>2 * delta_t)
     + 0.5 * d * real_of_int j * delta_t * (sigma\<^sup>2 * real_of_int j + r)"

definition update :: "real \<Rightarrow> real \<Rightarrow> real \<Rightarrow> int \<Rightarrow> int \<Rightarrow> state \<Rightarrow> error + state" where
  "update r sigma delta_t i j st =
     and_then (getitem (i - 1) (j - 1) st) (\<lambda>(a, st1).
     and_then (getitem (i - 1) j st1) (\<lambda>(b, st2).
     and_then (getitem (i - 1) (j + 1) st2) (\<lambda>(d, st3).
     setitem i j (stencil r sigma delta_t j a b d) st3)))"

text \<open>
  \<^verbatim>\<open>for i in range(1, N+1):
      for j in range(1, M): c[i][j] = ...\<close>
\<close>

definition recurrence :: "real \<Rightarrow> real \<Rightarrow> real \<Rightarrow> int \<Rightarrow> int \<Rightarrow> state \<Rightarrow> error + state" where
  "recurrence r sigma delta_t N M =
     for_loop (py_range 1 (N + 1))
       (\<lambda>i. for_loop (py_range 1 M) (\<lambda>j. update r sigma delta_t i j))"

text \<open>The right-hand side of the stability test, \<open>sigma\<^sup>2 (M - 1) + 0.5 r\<close>.\<close>

definition stability_divisor :: "real \<Rightarrow> real \<Rightarrow> int \<Rightarrow> real" where
  "stability_divisor r sigma M = sigma\<^sup>2 * real_of_int (M - 1) + 0.5 * r"

text \<open>The stability inequality \<open>\<Delta>t \<le> 1 / (sigma\<^sup>2 (M - 1) + 0.5 r)\<close> with \<open>\<Delta>t = T / N\<close>.\<close>

definition passes_stability :: "real \<Rightarrow> real \<Rightarrow> real \<Rightarrow> int \<Rightarrow> int \<Rightarrow> bool" where
  "passes_stability r sigma T N M \<longleftrightarrow> T / real_of_int N \<le> 1 / stability_divisor r sigma M"

text \<open>The column of the result, \<open>math.floor(S0/delta_S)\<close>.\<close>

definition result_index :: "real \<Rightarrow> real \<Rightarrow> error + int" where
  "result_index S0 delta_S = and_then (py_div S0 delta_S) (\<lambda>q. Inr \<lfloor>q\<rfloor>)"

text \<open>
  \<open>FinDiffCall\<close>, statement by statement: the three derived constants, the stability
  test with its early return, the allocation of the grid, the payoff and the boundary loop, the
  recurrence, and the final read \<open>c[N][math.floor(S0/delta_S)]\<close>, in which Python
  evaluates \<open>c[N]\<close> before the index expression.
\<close>

definition FinDiffCall :: "real \<Rightarrow> real \<Rightarrow> real \<Rightarrow> real \<Rightarrow> real \<Rightarrow> int \<Rightarrow> int \<Rightarrow> error + result" where
  "FinDiffCall S0 K r sigma T N M =
     and_then (py_div T (real_of_int N)) (\<lambda>delta_t.
     let S_max = 5 * S0 in
     and_then (py_div S_max (real_of_int M)) (\<lambda>delta_S.
     and_then (py_div 1 (stability_divisor r sigma M)) (\<lambda>bound.
     if delta_t > bound then Inr (Message ''time resolution is not great enough'')
     else
       and_then (payoff_loop delta_S K M (allocate N M)) (\<lambda>st1.
       and_then (boundary_loop S_max N M st1) (\<lambda>st2.
       and_then (recurrence r sigma delta_t N M st2) (\<lambda>st.
       and_then (py_index (length (grid st)) N) (\<lambda>row.
       and_then (result_index S0 delta_S) (\<lambda>j0.
       and_then (getitem N j0 st) (\<lambda>(v, st'). Inr (Price v))))))))))"

text \<open>
  The phases of \<open>FinDiffCall\<close> by name, for stating what holds between them:
  the state once the grid is allocated and the payoff loop and the boundary loop have run, and the
  state after the recurrence. Both are reached only with \<open>N \<noteq> 0\<close> and \<open>M \<noteq> 0\<close>, where
  \<open>delta_t = T / N\<close> and \<open>delta_S = S_max / M\<close>.
\<close>

definition FinDiff_init :: "real \<Rightarrow> real \<Rightarrow> int \<Rightarrow> int \<Rightarrow> error + state" where
  "FinDiff_init S0 K N M =
     (let S_max = 5 * S0; delta_S = S_max / real_of_int M
      in and_then (payoff_loop delta_S K M (allocate N M)) (boundary_loop S_max N M))"

definition FinDiff_grid :: "real \<Rightarrow> real \<Rightarrow> real \<Rightarrow> real \<Rightarrow> real \<Rightarrow> int \<Rightarrow> int \<Rightarrow> error + state" where
  "FinDiff_grid S0 K r sigma T N M =
     and_then (FinDiff_init S0 K N M) (recurrence r sigma (T / real_of_int N) N M)"


section \<open>Reading the grid\<close>

text \<open>The value stored at row \<open>i\<close>, column \<open>j\<close> (both non-negative).\<close>

definition cell :: "state \<Rightarrow> int \<Rightarrow> int \<Rightarrow> real" where
  "cell st i j = grid st ! nat i ! nat j"

text \<open>The grid has \<open>N + 1\<close> rows of \<open>M + 1\<close> entries each.\<close>

definition shaped :: "int \<Rightarrow> int \<Rightarrow> state \<Rightarrow> bool" where
  "shaped N M st \<longleftrightarrow>
     length (grid st) = nat (N + 1) \<and> (\<forall>row \<in> set (grid st). length row = nat (M + 1))"

text \<open>The index pair \<open>(i, j)\<close> lies in \<open>0 \<le> i \<le> N\<close>, \<open>0 \<le> j \<le> M\<close>.\<close>

definition inside :: "int \<Rightarrow> int \<Rightarrow> int \<Rightarrow> int \<Rightarrow> bool" where
  "inside N M i j \<longleftrightarrow> 0 \<le> i \<and> i \<le> N \<and> 0 \<le> j \<and> j \<le> M"

text \<open>Every subscription recorded so far used an index pair inside the grid.\<close>

definition in_bounds :: "int \<Rightarrow> int \<Rightarrow> state \<Rightarrow> bool" where
  "in_bounds N M st \<longleftrightarrow> (\<forall>(i, j) \<in> set (accesses st). 0 \<le> i \<and> i \<le> N \<and> 0 \<le> j \<and> j \<le> M)"

text \<open>The state a successful write \<open>c[i][j] = v\<close> with non-negative indices leaves.\<close>

definition put :: "int \<Rightarrow> int \<Rightarrow> real \<Rightarrow> state \<Rightarrow> state" where
  "put i j v st = touch i j (st\<lparr>grid := (grid st)[nat i := (grid st ! nat i)[nat j := v]]\<rparr>)"

text \<open>
  The contents of the grid once the payoff loop and the boundary loop have run: the boundary loop
  runs after the payoff loop and over every row, row \<open>0\<close> included.
\<close>

definition init_cell :: "real \<Rightarrow> real \<Rightarrow> int \<Rightarrow> int \<Rightarrow> int \<Rightarrow> real" where
  "init_cell S0 K M i j =
     (if j = 0 then 0 else if j = M then 5 * S0
      else if i = 0 then max (real_of_int j * (5 * S0 / real_of_int M) - K) 0 else 0)"

text \<open>
  The value the recurrence body computes for \<open>c[i][j]\<close> from row \<open>i - 1\<close> of a
  state.
\<close>

definition next_value :: "real \<Rightarrow> real \<Rightarrow> real \<Rightarrow> state \<Rightarrow> int \<Rightarrow> int \<Rightarrow> real" where
  "next_value r sigma delta_t st i j =
     stencil r sigma delta_t j (cell st (i - 1) (j - 1)) (cell st (i - 1) j) (cell st (i - 1) (j + 1))"

text \<open>The entry \<open>(i, j)\<close> of the grid a phase has returned, or the exception it raised.\<close>

definition peek :: "error + state \<Rightarrow> int \<Rightarrow> int \<Rightarrow> error + real" where
  "peek m i j = and_then m (\<lambda>st. Inr (cell st i j))"

text \<open>
  The index pairs \<open>(i, j)\<close> the nested iteration of the recurrence visits, in the order
  in which they visit them.
\<close>

definition steps :: "int \<Rightarrow> int \<Rightarrow> (int \<times> int) list" where
  "steps N M = concat (map (\<lambda>i. map (Pair i) (py_range 1 M)) (py_range 1 (N + 1)))"


section \<open>The Monte Carlo estimator\<close>

text \<open>
  \<open>np.std\<close> with its default \<open>ddof = 0\<close>, as numpy documents it: the square root of the
  mean of the squared absolute deviations from the mean,
  \<^verbatim>\<open>sqrt(mean(abs(x - x.mean())**2))\<close>.
\<close>

definition np_mean :: "real list \<Rightarrow> real" where
  "np_mean xs = sum_list xs / real (length xs)"

definition np_std :: "real list \<Rightarrow> real" where
  "np_std xs = sqrt (np_mean (map (\<lambda>x. \<bar>x - np_mean xs\<bar>\<^sup>2) xs))"

text \<open>
  What \<open>MCCall\<close> hands back: the price it returns and the width it prints after
  \<^verbatim>\<open>Confidence Interval Width:\<close>.
\<close>

record mc_output =
  printed_width :: real
  returned :: real

text \<open>
  \<open>MCCall\<close>. The \<open>n\<close> Gaussian draws \<open>np.random.normal(0, math.sqrt(T), n)\<close> are the
  argument \<open>Weiner\<close>, a list of length \<open>n\<close>; \<open>math.sqrt\<close> raises \<open>ValueError\<close> on a
  negative \<open>T\<close> and numpy raises it on a negative sample count. \<open>sum(...)/n\<close> divides a
  Python number by the integer \<open>n\<close>.
\<close>

definition MCCall :: "real \<Rightarrow> real \<Rightarrow> real \<Rightarrow> real \<Rightarrow> real \<Rightarrow> int \<Rightarrow> real list \<Rightarrow> error + mc_output" where
  "MCCall S0 K r sigma T n Weiner =
     (if T < 0 \<or> n < 0 then Inl ValueError
      else
        let maturity_values =
              map (\<lambda>w. S0 * exp ((r - 0.5 * sigma\<^sup>2) * T + sigma * w)) Weiner;
            maturity_payoff =
              map2 max (map (\<lambda>v. v - K) maturity_values) (map (\<lambda>i. 0) (py_range 0 n));
            discounted_payoff = map (\<lambda>x. exp (- r * T) * x) maturity_payoff
        in and_then (py_div (sum_list discounted_payoff) (real_of_int n)) (\<lambda>average.
             let standard_deviation = np_std discounted_payoff;
                 width = 2 * 1.96 * standard_deviation / sqrt (real_of_int n)
             in Inr \<lparr>printed_width = width, returned = average\<rparr>))"

text \<open>
  The quantities as the specification words them: the asset price at maturity
  \<open>S(T) = S0 exp ((r - sigma\<^sup>2 / 2) T + sigma W)\<close>, the discounted payoffs
  \<open>e\<^sup>-\<^sup>r\<^sup>T max (S(T) - K) 0\<close>, their arithmetic mean, and the two standard deviations of a
  sample: the sample standard deviation, with divisor \<open>n - 1\<close>, and the uncorrected one,
  with divisor \<open>n\<close>.
\<close>

definition asset_at_maturity :: "real \<Rightarrow> real \<Rightarrow> real \<Rightarrow> real \<Rightarrow> real \<Rightarrow> real" where
  "asset_at_maturity S0 r sigma T w = S0 * exp ((r - sigma\<^sup>2 / 2) * T + sigma * w)"

definition discounted_payoffs :: "real \<Rightarrow> real \<Rightarrow> real \<Rightarrow> real \<Rightarrow> real \<Rightarrow> real list \<Rightarrow> real list" where
  "discounted_payoffs S0 K r sigma T Weiner =
     map (\<lambda>w. exp (- (r * T)) * max (asset_at_maturity S0 r sigma T w - K) 0) Weiner"

definition arithmetic_mean :: "real list \<Rightarrow> real" where
  "arithmetic_mean xs = sum_list xs / real (length xs)"

definition sample_standard_deviation :: "real list \<Rightarrow> real" where
  "sample_standard_deviation xs =
     sqrt ((\<Sum>x\<leftarrow>xs. (x - arithmetic_mean xs)\<^sup>2) / (real (length xs) - 1))"

definition uncorrected_standard_deviation :: "real list \<Rightarrow> real" where
  "uncorrected_standard_deviation xs =
     sqrt ((\<Sum>x\<leftarrow>xs. (x - arithmetic_mean xs)\<^sup>2) / real (length xs))"


section \<open>The binomial tree\<close>








section \<open>Subscripts inside the grid\<close>

lemma py_index_ok: "0 \<le> i \<Longrightarrow> i < int n \<Longrightarrow> py_index n i = Inr (nat i)"
  by (simp add: py_index_def)

lemma shaped_row: "shaped N M st \<Longrightarrow> 0 \<le> i \<Longrightarrow> i \<le> N \<Longrightarrow> length (grid st ! nat i) = nat (M + 1)"
  by (simp add: shaped_def)

lemma getitem_ok:
  assumes "shaped N M st" "0 \<le> i" "i \<le> N" "0 \<le> j" "j \<le> M"
  shows "getitem i j st = Inr (cell st i j, touch i j st)"
proof -
  have "py_index (length (grid st)) i = Inr (nat i)"
    using assms by (intro py_index_ok) (auto simp: shaped_def)
  moreover have "py_index (length (grid st ! nat i)) j = Inr (nat j)"
    using assms shaped_row[OF assms(1-3)] by (intro py_index_ok) auto
  ultimately show ?thesis by (simp add: getitem_def and_then_def cell_def)
qed

lemma setitem_ok:
  assumes "shaped N M st" "0 \<le> i" "i \<le> N" "0 \<le> j" "j \<le> M"
  shows "setitem i j v st = Inr (put i j v st)"
proof -
  have "py_index (length (grid st)) i = Inr (nat i)"
    using assms by (intro py_index_ok) (auto simp: shaped_def)
  moreover have "py_index (length (grid st ! nat i)) j = Inr (nat j)"
    using assms shaped_row[OF assms(1-3)] by (intro py_index_ok) auto
  ultimately show ?thesis by (simp add: setitem_def and_then_def put_def)
qed

lemma shaped_touch [simp]: "shaped N M (touch i j st) = shaped N M st"
  by (simp add: shaped_def touch_def)

lemma cell_touch [simp]: "cell (touch i j st) i' j' = cell st i' j'"
  by (simp add: cell_def touch_def)

lemma accesses_touch [simp]: "accesses (touch i j st) = (i, j) # accesses st"
  by (simp add: touch_def)

lemma in_bounds_touch:
  "in_bounds N M (touch i j st) \<longleftrightarrow> (0 \<le> i \<and> i \<le> N \<and> 0 \<le> j \<and> j \<le> M) \<and> in_bounds N M st"
  by (simp add: in_bounds_def)

lemma shaped_put:
  assumes "shaped N M st"
  shows "shaped N M (put i j v st)"
proof (cases "nat i < length (grid st)")
  case True
  let ?y = "(grid st ! nat i)[nat j := v]"
  from True have "grid st ! nat i \<in> set (grid st)" by simp
  then have len: "length ?y = nat (M + 1)"
    using assms by (simp add: shaped_def)
  have sub: "set ((grid st)[nat i := ?y]) \<subseteq> insert ?y (set (grid st))"
    by (rule set_update_subset_insert)
  have "length row = nat (M + 1)" if "row \<in> set ((grid st)[nat i := ?y])" for row
  proof -
    from that sub have "row = ?y \<or> row \<in> set (grid st)" by blast
    then show ?thesis using len assms by (auto simp: shaped_def)
  qed
  then show ?thesis using assms by (simp add: shaped_def put_def touch_def)
next
  case False
  then have "(grid st)[nat i := (grid st ! nat i)[nat j := v]] = grid st"
    by (intro list_update_beyond) simp
  then show ?thesis using assms by (simp add: shaped_def put_def touch_def)
qed

lemma accesses_put [simp]: "accesses (put i j v st) = (i, j) # accesses st"
  by (simp add: put_def touch_def)

lemma in_bounds_put:
  "in_bounds N M (put i j v st) \<longleftrightarrow> (0 \<le> i \<and> i \<le> N \<and> 0 \<le> j \<and> j \<le> M) \<and> in_bounds N M st"
  by (simp add: in_bounds_def)

lemma cell_put:
  assumes "shaped N M st" "0 \<le> i" "i \<le> N" "0 \<le> j" "j \<le> M" "0 \<le> i'" "i' \<le> N" "0 \<le> j'" "j' \<le> M"
  shows "cell (put i j v st) i' j' = (if i' = i \<and> j' = j then v else cell st i' j')"
proof -
  have len: "nat i < length (grid st)" "nat i' < length (grid st)"
    using assms by (auto simp: shaped_def)
  have row: "nat j < length (grid st ! nat i)" "nat j' < length (grid st ! nat i')"
    using shaped_row[OF assms(1-3)] shaped_row[OF assms(1) assms(6,7)] assms by auto
  show ?thesis
  proof (cases "i' = i")
    case True
    then show ?thesis using len row assms
      by (auto simp: cell_def put_def touch_def nth_list_update)
  next
    case False
    then have "nat i' \<noteq> nat i" using assms by auto
    then show ?thesis using len False
      by (simp add: cell_def put_def touch_def)
  qed
qed

lemma for_loop_append:
  "for_loop (xs @ ys) body s = and_then (for_loop xs body s) (for_loop ys body)"
  by (induction xs arbitrary: s) (auto simp: and_then_def split: sum.splits)

lemma for_loop_invariant:
  assumes "Inv s"
    and "\<And>x t. x \<in> set xs \<Longrightarrow> Inv t \<Longrightarrow> \<exists>t'. body x t = Inr t' \<and> Inv t'"
  shows "\<exists>s'. for_loop xs body s = Inr s' \<and> Inv s'"
  using assms
proof (induction xs arbitrary: s)
  case Nil
  then show ?case by simp
next
  case (Cons x xs)
  from Cons.prems obtain t where t: "body x s = Inr t" "Inv t" by fastforce
  from Cons.IH[OF t(2)] Cons.prems(2) obtain s' where "for_loop xs body t = Inr s'" "Inv s'"
    by auto
  with t show ?case by simp
qed

lemma py_range_rec: "a < b \<Longrightarrow> py_range a b = a # py_range (a + 1) b"
  by (simp add: py_range_def upto_rec1)

lemma py_range_empty: "b \<le> a \<Longrightarrow> py_range a b = []"
  by (simp add: py_range_def)

lemma set_py_range: "set (py_range a b) = {a..<b}"
  by (auto simp: py_range_def)

lemma for_loop_range:
  assumes "a \<le> b" "Inv a s"
    and "\<And>k t. a \<le> k \<Longrightarrow> k < b \<Longrightarrow> Inv k t \<Longrightarrow> \<exists>t'. body k t = Inr t' \<and> Inv (k + 1) t'"
  shows "\<exists>s'. for_loop (py_range a b) body s = Inr s' \<and> Inv b s'"
  using assms
proof (induction "nat (b - a)" arbitrary: a s)
  case 0
  then have "a = b" by simp
  with 0 show ?case by (simp add: py_range_empty)
next
  case (Suc n)
  then have lt: "a < b" by linarith
  from Suc.prems(3)[OF _ lt Suc.prems(2)] obtain t where t: "body a s = Inr t" "Inv (a + 1) t"
    by auto
  have "\<exists>s'. for_loop (py_range (a + 1) b) body t = Inr s' \<and> Inv b s'"
  proof (rule Suc.hyps(1))
    show "n = nat (b - (a + 1))" using Suc.hyps(2) by linarith
    show "a + 1 \<le> b" using lt by simp
    show "Inv (a + 1) t" by (rule t(2))
    show "\<exists>t'. body k u = Inr t' \<and> Inv (k + 1) t'" if "a + 1 \<le> k" "k < b" "Inv k u" for k u
      using Suc.prems(3)[of k u] that by simp
  qed
  then show ?case using t by (simp add: py_range_rec[OF lt])
qed

lemma shaped_allocate: "shaped N M (allocate N M)"
  by (simp add: shaped_def allocate_def py_range_def)

lemma in_bounds_allocate: "in_bounds N M (allocate N M)"
  by (simp add: in_bounds_def allocate_def)

lemma cell_allocate: "inside N M i j \<Longrightarrow> cell (allocate N M) i j = 0"
  by (simp add: inside_def cell_def allocate_def py_range_def)

lemma payoff_loop_ok:
  assumes "0 \<le> N" "0 \<le> M"
  shows "\<exists>st. payoff_loop delta_S K M (allocate N M) = Inr st \<and> shaped N M st \<and> in_bounds N M st
           \<and> (\<forall>i j. inside N M i j \<longrightarrow>
                 cell st i j = (if i = 0 then max (real_of_int j * delta_S - K) 0 else 0))"
proof -
  define Inv where "Inv k st \<longleftrightarrow> shaped N M st \<and> in_bounds N M st
      \<and> (\<forall>i j. inside N M i j \<longrightarrow>
            cell st i j = (if i = 0 \<and> j < k then max (real_of_int j * delta_S - K) 0 else 0))"
    for k st
  have "\<exists>st. for_loop (py_range 0 (M + 1))
          (\<lambda>j. setitem 0 j (max (real_of_int j * delta_S - K) 0)) (allocate N M) = Inr st
          \<and> Inv (M + 1) st"
  proof (rule for_loop_range)
    show "0 \<le> M + 1" using assms by simp
    show "Inv 0 (allocate N M)"
      by (simp add: Inv_def shaped_allocate in_bounds_allocate cell_allocate inside_def)
    show "\<exists>t'. setitem 0 k (max (real_of_int k * delta_S - K) 0) t = Inr t' \<and> Inv (k + 1) t'"
      if "0 \<le> k" "k < M + 1" "Inv k t" for k t
    proof -
      let ?v = "max (real_of_int k * delta_S - K) 0"
      have sh: "shaped N M t" using that by (simp add: Inv_def)
      have kM: "k \<le> M" using that by simp
      have "setitem 0 k ?v t = Inr (put 0 k ?v t)"
        by (rule setitem_ok[OF sh]) (use assms that in auto)
      moreover have "Inv (k + 1) (put 0 k ?v t)"
        unfolding Inv_def
      proof (intro conjI allI impI)
        show "shaped N M (put 0 k ?v t)" by (rule shaped_put[OF sh])
        show "in_bounds N M (put 0 k ?v t)"
          using that assms by (simp add: in_bounds_put Inv_def)
        fix i j assume "inside N M i j"
        then have ij: "0 \<le> i" "i \<le> N" "0 \<le> j" "j \<le> M" by (simp_all add: inside_def)
        have "cell (put 0 k ?v t) i j = (if i = 0 \<and> j = k then ?v else cell t i j)"
          by (rule cell_put[OF sh _ assms(1) that(1) kM ij]) simp
        also have "cell t i j = (if i = 0 \<and> j < k then max (real_of_int j * delta_S - K) 0 else 0)"
          using that(3) \<open>inside N M i j\<close> by (simp add: Inv_def)
        finally show "cell (put 0 k ?v t) i j =
            (if i = 0 \<and> j < k + 1 then max (real_of_int j * delta_S - K) 0 else 0)"
          by auto
      qed
      ultimately show ?thesis by simp
    qed
  qed
  then obtain st where st: "payoff_loop delta_S K M (allocate N M) = Inr st" "Inv (M + 1) st"
    by (auto simp: payoff_loop_def)
  from st(2) have "\<forall>i j. inside N M i j \<longrightarrow>
                 cell st i j = (if i = 0 then max (real_of_int j * delta_S - K) 0 else 0)"
    by (auto simp: Inv_def inside_def)
  with st show ?thesis by (auto simp: Inv_def)
qed

lemma boundary_loop_ok:
  assumes "0 \<le> N" "1 \<le> M" "shaped N M s" "in_bounds N M s"
  shows "\<exists>st. boundary_loop S_max N M s = Inr st \<and> shaped N M st \<and> in_bounds N M st
           \<and> (\<forall>i j. inside N M i j \<longrightarrow>
                 cell st i j = (if j = 0 then 0 else if j = M then S_max else cell s i j))"
proof -
  define Inv where "Inv k st \<longleftrightarrow> shaped N M st \<and> in_bounds N M st
      \<and> (\<forall>i j. inside N M i j \<longrightarrow>
            cell st i j = (if i < k \<and> j = 0 then 0 else if i < k \<and> j = M then S_max else cell s i j))"
    for k st
  have "\<exists>st. for_loop (py_range 0 (N + 1))
          (\<lambda>i st. and_then (setitem i 0 0 st) (setitem i M S_max)) s = Inr st
          \<and> Inv (N + 1) st"
  proof (rule for_loop_range)
    show "0 \<le> N + 1" using assms by simp
    show "Inv 0 s" using assms by (simp add: Inv_def inside_def)
    show "\<exists>t'. and_then (setitem k 0 0 t) (setitem k M S_max) = Inr t' \<and> Inv (k + 1) t'"
      if "0 \<le> k" "k < N + 1" "Inv k t" for k t
    proof -
      have sh: "shaped N M t" using that by (simp add: Inv_def)
      have kN: "k \<le> N" using that by simp
      have M0: "0 \<le> M" using assms by simp
      have 1: "setitem k 0 0 t = Inr (put k 0 0 t)"
        by (rule setitem_ok[OF sh that(1) kN]) (use assms in auto)
      have sh1: "shaped N M (put k 0 0 t)" by (rule shaped_put[OF sh])
      have 2: "setitem k M S_max (put k 0 0 t) = Inr (put k M S_max (put k 0 0 t))"
        by (rule setitem_ok[OF sh1 that(1) kN]) (use assms in auto)
      have "Inv (k + 1) (put k M S_max (put k 0 0 t))"
        unfolding Inv_def
      proof (intro conjI allI impI)
        show "shaped N M (put k M S_max (put k 0 0 t))" by (rule shaped_put[OF sh1])
        show "in_bounds N M (put k M S_max (put k 0 0 t))"
          using that assms by (simp add: in_bounds_put Inv_def)
        fix i j assume ins: "inside N M i j"
        then have ij: "0 \<le> i" "i \<le> N" "0 \<le> j" "j \<le> M" by (simp_all add: inside_def)
        have "cell (put k M S_max (put k 0 0 t)) i j
              = (if i = k \<and> j = M then S_max else cell (put k 0 0 t) i j)"
          by (rule cell_put[OF sh1 that(1) kN M0 _ ij]) simp
        also have "cell (put k 0 0 t) i j = (if i = k \<and> j = 0 then 0 else cell t i j)"
          by (rule cell_put[OF sh that(1) kN _ M0 ij]) simp
        also have "cell t i j =
            (if i < k \<and> j = 0 then 0 else if i < k \<and> j = M then S_max else cell s i j)"
          using that(3) ins by (simp add: Inv_def)
        finally show "cell (put k M S_max (put k 0 0 t)) i j =
            (if i < k + 1 \<and> j = 0 then 0 else if i < k + 1 \<and> j = M then S_max else cell s i j)"
          using assms(2) by auto
      qed
      with 1 2 show ?thesis by (simp add: and_then_def)
    qed
  qed
  then obtain st where st: "boundary_loop S_max N M s = Inr st" "Inv (N + 1) st"
    by (auto simp: boundary_loop_def)
  from st(2) have "\<forall>i j. inside N M i j \<longrightarrow>
      cell st i j = (if j = 0 then 0 else if j = M then S_max else cell s i j)"
    by (auto simp: Inv_def inside_def)
  with st show ?thesis by (auto simp: Inv_def)
qed

lemma FinDiff_init_ok:
  assumes "0 \<le> N" "1 \<le> M"
  shows "\<exists>st. FinDiff_init S0 K N M = Inr st \<and> shaped N M st \<and> in_bounds N M st
           \<and> (\<forall>i j. inside N M i j \<longrightarrow> cell st i j = init_cell S0 K M i j)"
proof -
  let ?dS = "5 * S0 / real_of_int M"
  from payoff_loop_ok[of N M ?dS K] assms obtain s where
    s: "payoff_loop ?dS K M (allocate N M) = Inr s" "shaped N M s" "in_bounds N M s"
       "\<forall>i j. inside N M i j \<longrightarrow> cell s i j = (if i = 0 then max (real_of_int j * ?dS - K) 0 else 0)"
    by auto
  from boundary_loop_ok[OF assms s(2,3), of "5 * S0"] obtain st where
    st: "boundary_loop (5 * S0) N M s = Inr st" "shaped N M st" "in_bounds N M st"
        "\<forall>i j. inside N M i j \<longrightarrow> cell st i j = (if j = 0 then 0 else if j = M then 5 * S0 else cell s i j)"
    by auto
  have "\<forall>i j. inside N M i j \<longrightarrow> cell st i j = init_cell S0 K M i j"
    using st(4) s(4) by (simp add: init_cell_def)
  with s(1) st(1-3) show ?thesis
    by (simp add: FinDiff_init_def and_then_def)
qed


section \<open>The recurrence, row by row\<close>

lemma update_ok:
  assumes sh: "shaped N M st" and i: "1 \<le> i" "i \<le> N" and j: "1 \<le> j" "j < M"
  shows "update r sigma delta_t i j st =
     Inr (put i j (stencil r sigma delta_t j (cell st (i - 1) (j - 1)) (cell st (i - 1) j)
                     (cell st (i - 1) (j + 1)))
            (touch (i - 1) (j + 1) (touch (i - 1) j (touch (i - 1) (j - 1) st))))"
proof -
  let ?s1 = "touch (i - 1) (j - 1) st"
  let ?s2 = "touch (i - 1) j ?s1"
  let ?s3 = "touch (i - 1) (j + 1) ?s2"
  have g1: "getitem (i - 1) (j - 1) st = Inr (cell st (i - 1) (j - 1), ?s1)"
    by (rule getitem_ok[OF sh]) (use i j in auto)
  have sh1: "shaped N M ?s1" using sh by simp
  have g2: "getitem (i - 1) j ?s1 = Inr (cell ?s1 (i - 1) j, ?s2)"
    by (rule getitem_ok[OF sh1]) (use i j in auto)
  have sh2: "shaped N M ?s2" using sh by simp
  have g3: "getitem (i - 1) (j + 1) ?s2 = Inr (cell ?s2 (i - 1) (j + 1), ?s3)"
    by (rule getitem_ok[OF sh2]) (use i j in auto)
  have sh3: "shaped N M ?s3" using sh by simp
  have s: "setitem i j v ?s3 = Inr (put i j v ?s3)" for v
    by (rule setitem_ok[OF sh3]) (use i j in auto)
  show ?thesis
    unfolding update_def by (simp add: g1 g2 g3 s and_then_def)
qed

lemma update_effect:
  assumes sh: "shaped N M st" and i: "1 \<le> i" "i \<le> N" and j: "1 \<le> j" "j < M"
  shows "\<exists>st'. update r sigma delta_t i j st = Inr st' \<and> shaped N M st'
           \<and> (in_bounds N M st \<longrightarrow> in_bounds N M st')
           \<and> (\<forall>i' j'. inside N M i' j' \<longrightarrow> cell st' i' j' =
                 (if i' = i \<and> j' = j
                  then stencil r sigma delta_t j (cell st (i - 1) (j - 1)) (cell st (i - 1) j)
                         (cell st (i - 1) (j + 1))
                  else cell st i' j'))"
proof -
  let ?s3 = "touch (i - 1) (j + 1) (touch (i - 1) j (touch (i - 1) (j - 1) st))"
  let ?v = "stencil r sigma delta_t j (cell st (i - 1) (j - 1)) (cell st (i - 1) j)
              (cell st (i - 1) (j + 1))"
  have sh3: "shaped N M ?s3" using sh by simp
  have 1: "update r sigma delta_t i j st = Inr (put i j ?v ?s3)"
    by (rule update_ok[OF assms])
  have 2: "shaped N M (put i j ?v ?s3)" by (rule shaped_put[OF sh3])
  have 3: "in_bounds N M (put i j ?v ?s3)" if "in_bounds N M st"
    using that i j by (simp add: in_bounds_put in_bounds_touch)
  have 4: "cell (put i j ?v ?s3) i' j' = (if i' = i \<and> j' = j then ?v else cell st i' j')"
    if "inside N M i' j'" for i' j'
  proof -
    have "cell (put i j ?v ?s3) i' j' = (if i' = i \<and> j' = j then ?v else cell ?s3 i' j')"
      by (rule cell_put[OF sh3]) (use that i j in \<open>auto simp: inside_def\<close>)
    then show ?thesis by simp
  qed
  show ?thesis using 1 2 3 4 by blast
qed


lemma next_value_cong:
  assumes "\<And>j'. 0 \<le> j' \<Longrightarrow> j' \<le> M \<Longrightarrow> cell a (i - 1) j' = cell b (i - 1) j'"
    and "1 \<le> j" "j < M"
  shows "next_value r sigma delta_t a i j = next_value r sigma delta_t b i j"
  using assms by (simp add: next_value_def)

lemma inner_loop_ok:
  assumes sh: "shaped N M s" and i: "1 \<le> i" "i \<le> N" and M: "1 \<le> M"
  shows "\<exists>s'. for_loop (py_range 1 M) (\<lambda>j. update r sigma delta_t i j) s = Inr s'
           \<and> shaped N M s' \<and> (in_bounds N M s \<longrightarrow> in_bounds N M s')
           \<and> (\<forall>i' j'. inside N M i' j' \<longrightarrow> cell s' i' j' =
                 (if i' = i \<and> 1 \<le> j' \<and> j' < M then next_value r sigma delta_t s i j'
                  else cell s i' j'))"
proof -
  define Inv where "Inv k t \<longleftrightarrow> shaped N M t \<and> (in_bounds N M s \<longrightarrow> in_bounds N M t)
      \<and> (\<forall>i' j'. inside N M i' j' \<longrightarrow> cell t i' j' =
            (if i' = i \<and> 1 \<le> j' \<and> j' < k then next_value r sigma delta_t s i j'
             else cell s i' j'))" for k t
  have "\<exists>s'. for_loop (py_range 1 M) (\<lambda>j. update r sigma delta_t i j) s = Inr s' \<and> Inv M s'"
  proof (rule for_loop_range)
    show "1 \<le> M" by (rule M)
    show "Inv 1 s" using sh by (simp add: Inv_def)
    show "\<exists>t'. update r sigma delta_t i k t = Inr t' \<and> Inv (k + 1) t'"
      if k: "1 \<le> k" "k < M" and inv: "Inv k t" for k t
    proof -
      have sht: "shaped N M t" using inv by (simp add: Inv_def)
      have row: "cell t (i - 1) j' = cell s (i - 1) j'" if "0 \<le> j'" "j' \<le> M" for j'
      proof -
        have "inside N M (i - 1) j'" using that i by (simp add: inside_def)
        then show ?thesis using inv by (simp add: Inv_def)
      qed
      have nv: "next_value r sigma delta_t t i k = next_value r sigma delta_t s i k"
        by (rule next_value_cong[OF row k])
      from update_effect[OF sht i k, of r sigma delta_t] obtain t' where
        t': "update r sigma delta_t i k t = Inr t'" "shaped N M t'"
            "in_bounds N M t \<longrightarrow> in_bounds N M t'"
            "\<forall>i' j'. inside N M i' j' \<longrightarrow> cell t' i' j' =
                 (if i' = i \<and> j' = k then next_value r sigma delta_t t i k else cell t i' j')"
        unfolding next_value_def by blast
      have "cell t' i' j' =
            (if i' = i \<and> 1 \<le> j' \<and> j' < k + 1 then next_value r sigma delta_t s i j'
             else cell s i' j')" if ins: "inside N M i' j'" for i' j'
      proof (cases "i' = i \<and> j' = k")
        case True
        from t'(4) ins have "cell t' i' j' =
            (if i' = i \<and> j' = k then next_value r sigma delta_t t i k else cell t i' j')"
          by blast
        then show ?thesis using True nv k by simp
      next
        case False
        from t'(4) ins have "cell t' i' j' =
            (if i' = i \<and> j' = k then next_value r sigma delta_t t i k else cell t i' j')"
          by blast
        with False have "cell t' i' j' = cell t i' j'" by (simp only: if_False)
        also have "\<dots> = (if i' = i \<and> 1 \<le> j' \<and> j' < k then next_value r sigma delta_t s i j'
             else cell s i' j')" using inv ins by (simp add: Inv_def)
        finally show ?thesis using False by auto
      qed
      then have "Inv (k + 1) t'" using t'(2,3) inv by (simp add: Inv_def)
      with t'(1) show ?thesis by blast
    qed
  qed
  then show ?thesis by (auto simp: Inv_def)
qed

lemma recurrence_ok:
  assumes sh: "shaped N M s" and N: "0 \<le> N" and M: "1 \<le> M"
  shows "\<exists>s'. recurrence r sigma delta_t N M s = Inr s'
           \<and> shaped N M s' \<and> (in_bounds N M s \<longrightarrow> in_bounds N M s')
           \<and> (\<forall>i j. inside N M i j \<and> (i = 0 \<or> j = 0 \<or> j = M) \<longrightarrow> cell s' i j = cell s i j)
           \<and> (\<forall>i j. 1 \<le> i \<and> i \<le> N \<and> 1 \<le> j \<and> j < M \<longrightarrow>
                  cell s' i j = next_value r sigma delta_t s' i j)"
proof -
  define Inv where "Inv k t \<longleftrightarrow> shaped N M t \<and> (in_bounds N M s \<longrightarrow> in_bounds N M t)
      \<and> (\<forall>i j. inside N M i j \<and> (i = 0 \<or> j = 0 \<or> j = M \<or> k \<le> i) \<longrightarrow> cell t i j = cell s i j)
      \<and> (\<forall>i j. 1 \<le> i \<and> i < k \<and> 1 \<le> j \<and> j < M \<longrightarrow>
             cell t i j = next_value r sigma delta_t t i j)" for k t
  have "\<exists>s'. for_loop (py_range 1 (N + 1))
          (\<lambda>i. for_loop (py_range 1 M) (\<lambda>j. update r sigma delta_t i j)) s = Inr s'
        \<and> Inv (N + 1) s'"
  proof (rule for_loop_range)
    show "1 \<le> N + 1" using N by simp
    show "Inv 1 s" using sh by (simp add: Inv_def)
    show "\<exists>t'. for_loop (py_range 1 M) (\<lambda>j. update r sigma delta_t k j) t = Inr t' \<and> Inv (k + 1) t'"
      if k: "1 \<le> k" "k < N + 1" and inv: "Inv k t" for k t
    proof -
      have sht: "shaped N M t" using inv by (simp add: Inv_def)
      have kN: "k \<le> N" using k by simp
      from inner_loop_ok[OF sht k(1) kN M, of r sigma delta_t] obtain t' where
        t': "for_loop (py_range 1 M) (\<lambda>j. update r sigma delta_t k j) t = Inr t'"
            "shaped N M t'" "in_bounds N M t \<longrightarrow> in_bounds N M t'"
            "\<forall>i' j'. inside N M i' j' \<longrightarrow> cell t' i' j' =
                 (if i' = k \<and> 1 \<le> j' \<and> j' < M then next_value r sigma delta_t t k j'
                  else cell t i' j')"
        by blast
      have frame: "cell t' i j = cell s i j"
        if "inside N M i j" "i = 0 \<or> j = 0 \<or> j = M \<or> k + 1 \<le> i" for i j
      proof -
        have no: "\<not> (i = k \<and> 1 \<le> j \<and> j < M)" using that k by auto
        from t'(4) that(1) have "cell t' i j =
            (if i = k \<and> 1 \<le> j \<and> j < M then next_value r sigma delta_t t k j else cell t i j)"
          by blast
        with no have "cell t' i j = cell t i j" by (simp only: if_False)
        also have "\<dots> = cell s i j" using inv that by (auto simp: Inv_def)
        finally show ?thesis .
      qed
      have below: "cell t' i' j' = cell t i' j'" if "0 \<le> i'" "i' < k" "0 \<le> j'" "j' \<le> M" for i' j'
      proof -
        have "inside N M i' j'" using that kN by (simp add: inside_def)
        with t'(4) have "cell t' i' j' =
            (if i' = k \<and> 1 \<le> j' \<and> j' < M then next_value r sigma delta_t t k j' else cell t i' j')"
          by blast
        then show ?thesis using that by simp
      qed
      have rec: "cell t' i j = next_value r sigma delta_t t' i j"
        if ij: "1 \<le> i" "i < k + 1" "1 \<le> j" "j < M" for i j
      proof -
        have ins: "inside N M i j" using ij kN by (simp add: inside_def)
        have nv: "next_value r sigma delta_t t' i j = next_value r sigma delta_t t i j"
          by (rule next_value_cong[OF below ij(3,4)]) (use ij in auto)
        from t'(4) ins have eq: "cell t' i j =
            (if i = k \<and> 1 \<le> j \<and> j < M then next_value r sigma delta_t t k j else cell t i j)"
          by blast
        show ?thesis
        proof (cases "i = k")
          case True
          then show ?thesis using eq ij nv by simp
        next
          case False
          then have "cell t' i j = cell t i j" using eq by simp
          also have "\<dots> = next_value r sigma delta_t t i j"
            using inv ij False by (simp add: Inv_def)
          finally show ?thesis using nv by simp
        qed
      qed
      have "Inv (k + 1) t'"
        unfolding Inv_def using t'(2,3) inv frame rec by (simp add: Inv_def)
      with t'(1) show ?thesis by blast
    qed
  qed
  then show ?thesis by (auto simp: Inv_def recurrence_def)
qed


lemma FinDiff_grid_ok:
  assumes "0 \<le> N" "1 \<le> M"
  shows "\<exists>st. FinDiff_grid S0 K r sigma T N M = Inr st \<and> shaped N M st \<and> in_bounds N M st
           \<and> (\<forall>i j. inside N M i j \<and> (i = 0 \<or> j = 0 \<or> j = M) \<longrightarrow>
                  cell st i j = init_cell S0 K M i j)
           \<and> (\<forall>i j. 1 \<le> i \<and> i \<le> N \<and> 1 \<le> j \<and> j < M \<longrightarrow>
                  cell st i j = next_value r sigma (T / real_of_int N) st i j)"
proof -
  from FinDiff_init_ok[OF assms, of S0 K] obtain s where
    s: "FinDiff_init S0 K N M = Inr s" "shaped N M s" "in_bounds N M s"
       "\<forall>i j. inside N M i j \<longrightarrow> cell s i j = init_cell S0 K M i j"
    by blast
  from recurrence_ok[OF s(2) assms, of r sigma "T / real_of_int N"] obtain st where
    st: "recurrence r sigma (T / real_of_int N) N M s = Inr st" "shaped N M st"
        "in_bounds N M s \<longrightarrow> in_bounds N M st"
        "\<forall>i j. inside N M i j \<and> (i = 0 \<or> j = 0 \<or> j = M) \<longrightarrow> cell st i j = cell s i j"
        "\<forall>i j. 1 \<le> i \<and> i \<le> N \<and> 1 \<le> j \<and> j < M \<longrightarrow>
                  cell st i j = next_value r sigma (T / real_of_int N) st i j"
    by blast
  have "FinDiff_grid S0 K r sigma T N M = Inr st"
    using s(1) st(1) by (simp add: FinDiff_grid_def and_then_def)
  moreover have "\<forall>i j. inside N M i j \<and> (i = 0 \<or> j = 0 \<or> j = M) \<longrightarrow>
                  cell st i j = init_cell S0 K M i j"
    using st(4) s(4) by simp
  ultimately show ?thesis using st(2,3,5) s(3) by blast
qed



lemma getitem_empty: "grid st = [] \<Longrightarrow> getitem i j st = Inl IndexError"
  by (simp add: getitem_def py_index_def and_then_def)


lemma FinDiff_init_no_columns:
  assumes "0 \<le> N" "M < 0"
  shows "FinDiff_init S0 K N M = Inl IndexError"
proof -
  have p: "payoff_loop delta_S K M (allocate N M) = Inr (allocate N M)" for delta_S
    using assms by (simp add: payoff_loop_def py_range_empty)
  have r: "py_range 0 (N + 1) = 0 # py_range 1 (N + 1)"
    using py_range_rec[of 0 "N + 1"] assms by simp
  have "grid (allocate N M) = map (\<lambda>i. []) (py_range 0 (N + 1))"
    using assms by (simp add: allocate_def py_range_empty)
  then have g: "grid (allocate N M) = [] # map (\<lambda>i. []) (py_range 1 (N + 1))"
    by (simp add: r)
  have "setitem 0 0 0 (allocate N M) = Inl IndexError"
    by (simp add: setitem_def g py_index_def and_then_def)
  then have "boundary_loop S_max N M (allocate N M) = Inl IndexError" for S_max
    by (simp add: boundary_loop_def r and_then_def)
  then show ?thesis using p by (simp add: FinDiff_init_def and_then_def)
qed



lemma FinDiffCall_unfold:
  "FinDiffCall S0 K r sigma T N M =
     and_then (py_div T (real_of_int N)) (\<lambda>delta_t.
     and_then (py_div (5 * S0) (real_of_int M)) (\<lambda>delta_S.
     and_then (py_div 1 (stability_divisor r sigma M)) (\<lambda>bound.
     if delta_t > bound then Inr (Message ''time resolution is not great enough'')
     else
       and_then (FinDiff_grid S0 K r sigma T N M) (\<lambda>st.
       and_then (py_index (length (grid st)) N) (\<lambda>row.
       and_then (result_index S0 delta_S) (\<lambda>j0.
       and_then (getitem N j0 st) (\<lambda>(v, st'). Inr (Price v))))))))"
  by (simp add: FinDiffCall_def FinDiff_grid_def FinDiff_init_def py_div_def and_then_def Let_def
      split: sum.splits)



section \<open>The value \<open>FinDiffCall\<close> returns\<close>

lemma result_index_eq:
  assumes "S0 \<noteq> 0" "M \<noteq> 0"
  shows "result_index S0 (5 * S0 / real_of_int M) = Inr (M div 5)"
proof -
  have "S0 / (5 * S0 / real_of_int M) = real_of_int M / real_of_int 5"
    using assms by (simp add: field_simps)
  then have "\<lfloor>S0 / (5 * S0 / real_of_int M)\<rfloor> = M div 5"
    by (simp only: floor_divide_of_int_eq)
  then show ?thesis using assms by (simp add: result_index_def py_div_def and_then_def)
qed



lemma FinDiffCall_value:
  assumes N: "1 \<le> N" and M: "1 \<le> M" and S0: "S0 \<noteq> 0"
    and d: "stability_divisor r sigma M \<noteq> 0"
    and st: "FinDiff_grid S0 K r sigma T N M = Inr st" and sh: "shaped N M st"
  shows "FinDiffCall S0 K r sigma T N M =
           (if passes_stability r sigma T N M then Inr (Price (cell st N (M div 5)))
            else Inr (Message ''time resolution is not great enough''))"
proof -
  have N0: "real_of_int N \<noteq> 0" and M0: "real_of_int M \<noteq> 0" using N M by auto
  have j0: "result_index S0 (5 * S0 / real_of_int M) = Inr (M div 5)"
    using result_index_eq[OF S0] M by simp
  have "0 \<le> M div 5 \<and> M div 5 \<le> M" using M by presburger
  then have g: "getitem N (M div 5) st = Inr (cell st N (M div 5), touch N (M div 5) st)"
    using N by (intro getitem_ok[OF sh]) auto
  have row: "py_index (length (grid st)) N = Inr (nat N)"
    using N sh by (intro py_index_ok) (auto simp: shaped_def)
  show ?thesis
    using N0 M0 d
    by (simp add: FinDiffCall_unfold py_div_def and_then_def st row j0 g passes_stability_def not_less)
qed


lemma FinDiffCall_unstable:
  assumes "N \<noteq> 0" "M \<noteq> 0" "stability_divisor r sigma M \<noteq> 0" "\<not> passes_stability r sigma T N M"
  shows "FinDiffCall S0 K r sigma T N M = Inr (Message ''time resolution is not great enough'')"
  using assms by (simp add: FinDiffCall_unfold py_div_def and_then_def passes_stability_def not_le)



text \<open>The grid phase with \<open>N = 1\<close>, \<open>M = 2\<close>, and every subscription it performs.\<close>

lemma run_1_2:
  "FinDiff_grid 1 (3/2) 0 (1/2) 1 1 2 =
     Inr \<lparr>grid = [ [0, 1, 5], [0, 11/8, 5]],
          accesses = [(1, 1), (0, 2), (0, 1), (0, 0),
                      (1, 2), (1, 0), (0, 2), (0, 0), (0, 2), (0, 1), (0, 0)]\<rparr>"
  by code_simp


section \<open>The recurrence, one write at a time\<close>

lemma for_loop_map: "for_loop (map g ys) body s = for_loop ys (\<lambda>y. body (g y)) s"
  by (induction ys arbitrary: s) (auto split: sum.splits)

lemma for_loop_nested:
  "for_loop (concat (map (\<lambda>i. map (Pair i) ys) xs)) (\<lambda>(i, j). f i j) s
     = for_loop xs (\<lambda>i. for_loop ys (\<lambda>j. f i j)) s"
proof (induction xs arbitrary: s)
  case Nil
  then show ?case by simp
next
  case (Cons x xs)
  show ?case
    by (simp add: for_loop_append for_loop_map and_then_def Cons.IH split: sum.splits)
qed

lemma recurrence_steps:
  "recurrence r sigma delta_t N M s
     = for_loop (steps N M) (\<lambda>(i, j). update r sigma delta_t i j) s"
  by (simp add: recurrence_def steps_def for_loop_nested)

lemma set_steps: "set (steps N M) = {(i, j). 1 \<le> i \<and> i \<le> N \<and> 1 \<le> j \<and> j < M}"
  by (auto simp: steps_def set_py_range)

lemma steps_empty: "N < 0 \<Longrightarrow> steps N M = []"
  by (simp add: steps_def py_range_empty)

lemma boundary_kept:
  assumes N: "0 \<le> N" and M: "1 \<le> M" and sh: "shaped N M s"
    and b: "\<forall>i j. inside N M i j \<and> (j = 0 \<or> j = M) \<longrightarrow> cell s i j = init_cell S0 K M i j"
    and sub: "set xs \<subseteq> set (steps N M)"
  shows "\<exists>st. for_loop xs (\<lambda>(i, j). update r sigma delta_t i j) s = Inr st
           \<and> (\<forall>i \<in> {0..N}. cell st i 0 = 0 \<and> cell st i M = 5 * S0)"
proof -
  define Inv where "Inv t \<longleftrightarrow> shaped N M t
      \<and> (\<forall>i j. inside N M i j \<and> (j = 0 \<or> j = M) \<longrightarrow> cell t i j = init_cell S0 K M i j)" for t
  have "\<exists>st. for_loop xs (\<lambda>(i, j). update r sigma delta_t i j) s = Inr st \<and> Inv st"
  proof (rule for_loop_invariant)
    show "Inv s" using sh b by (simp add: Inv_def)
    show "\<exists>t'. (case x of (i, j) \<Rightarrow> update r sigma delta_t i j) t = Inr t' \<and> Inv t'"
      if x: "x \<in> set xs" and inv: "Inv t" for x t
    proof -
      obtain i j where ij: "x = (i, j)" by (cases x)
      with x sub have r: "1 \<le> i" "i \<le> N" "1 \<le> j" "j < M" by (auto simp: set_steps)
      have sht: "shaped N M t" using inv by (simp add: Inv_def)
      from update_effect[OF sht r, of r sigma delta_t] obtain t' where
        t': "update r sigma delta_t i j t = Inr t'" "shaped N M t'"
            "\<forall>i' j'. inside N M i' j' \<longrightarrow> cell t' i' j' =
                 (if i' = i \<and> j' = j
                  then stencil r sigma delta_t j (cell t (i - 1) (j - 1)) (cell t (i - 1) j)
                         (cell t (i - 1) (j + 1))
                  else cell t i' j')"
        by blast
      have "cell t' i' j' = init_cell S0 K M i' j'"
        if ins: "inside N M i' j'" and e: "j' = 0 \<or> j' = M" for i' j'
      proof -
        from e r have ne: "\<not> (i' = i \<and> j' = j)" by auto
        from t'(3) ins have "cell t' i' j' =
                 (if i' = i \<and> j' = j
                  then stencil r sigma delta_t j (cell t (i - 1) (j - 1)) (cell t (i - 1) j)
                         (cell t (i - 1) (j + 1))
                  else cell t i' j')" by blast
        with ne have "cell t' i' j' = cell t i' j'" by (simp only: if_False)
        also have "\<dots> = init_cell S0 K M i' j'" using inv ins e by (simp add: Inv_def)
        finally show ?thesis .
      qed
      then have "Inv t'" using t'(2) by (simp add: Inv_def)
      with t'(1) ij show ?thesis by simp
    qed
  qed
  then obtain st where st: "for_loop xs (\<lambda>(i, j). update r sigma delta_t i j) s = Inr st" "Inv st"
    by blast
  have "cell st i 0 = 0 \<and> cell st i M = 5 * S0" if "i \<in> {0..N}" for i
  proof -
    have "inside N M i 0" "inside N M i M" using that M by (simp_all add: inside_def)
    then have "cell st i 0 = init_cell S0 K M i 0" "cell st i M = init_cell S0 K M i M"
      using st(2) by (simp_all add: Inv_def)
    then show ?thesis using M by (simp add: init_cell_def)
  qed
  with st(1) show ?thesis by blast
qed

text \<open>Initialisation with \<open>S0 = 200\<close>, \<open>K = 205\<close>, \<open>N = 1\<close>, \<open>M = 2\<close>.\<close>

lemma init_1_2:
  "FinDiff_init 200 205 1 2 =
     Inr \<lparr>grid = [ [0, 295, 1000], [0, 0, 1000]],
          accesses = [(1, 2), (1, 0), (0, 2), (0, 0), (0, 2), (0, 1), (0, 0)]\<rparr>"
  by code_simp


section \<open>Grids without negative entries\<close>






section \<open>The Monte Carlo estimator and the quantities of the specification\<close>

lemma length_py_range: "length (py_range 0 n) = nat n"
  by (simp add: py_range_def)

lemma maximum_zeros:
  assumes "length vs = nat n"
  shows "map2 max (map (\<lambda>v. v - K) vs) (map (\<lambda>i. 0) (py_range 0 n))
           = map (\<lambda>v. max (v - K) (0::real)) vs"
proof -
  have "map (\<lambda>i. 0::real) (py_range 0 n) = replicate (length vs) 0"
    by (simp add: map_replicate_const length_py_range assms)
  then show ?thesis
    by (simp add: zip_replicate2 zip_map1 map_replicate_const o_def split_def)
qed

lemma np_std_uncorrected: "np_std xs = uncorrected_standard_deviation xs"
proof -
  have m: "np_mean xs = arithmetic_mean xs"
    by (simp add: np_mean_def arithmetic_mean_def)
  have "(\<lambda>x. \<bar>x - np_mean xs\<bar>\<^sup>2) = (\<lambda>x. (x - arithmetic_mean xs)\<^sup>2)"
    by (simp add: m)
  then have "np_std xs = sqrt (np_mean (map (\<lambda>x. (x - arithmetic_mean xs)\<^sup>2) xs))"
    by (simp only: np_std_def)
  then show ?thesis
    by (simp add: uncorrected_standard_deviation_def np_mean_def)
qed

lemma MCCall_payoffs:
  assumes "0 \<le> T" "0 \<le> n" "length Weiner = nat n"
  shows "MCCall S0 K r sigma T n Weiner =
     and_then (py_div (sum_list (discounted_payoffs S0 K r sigma T Weiner)) (real_of_int n))
       (\<lambda>average. Inr \<lparr>printed_width =
            2 * 1.96 * np_std (discounted_payoffs S0 K r sigma T Weiner) / sqrt (real_of_int n),
          returned = average\<rparr>)"
proof -
  let ?vs = "map (\<lambda>w. S0 * exp ((r - 0.5 * sigma\<^sup>2) * T + sigma * w)) Weiner"
  have l: "length ?vs = nat n" using assms by simp
  have "map (\<lambda>x. exp (- r * T) * x) (map2 max (map (\<lambda>v. v - K) ?vs) (map (\<lambda>i. 0) (py_range 0 n)))
          = discounted_payoffs S0 K r sigma T Weiner"
    unfolding maximum_zeros[OF l]
    by (simp add: discounted_payoffs_def asset_at_maturity_def o_def)
  then show ?thesis using assms by (simp add: MCCall_def Let_def)
qed

lemma MCCall_value:
  assumes "0 \<le> T" "1 \<le> n" "length Weiner = nat n"
  shows "MCCall S0 K r sigma T n Weiner =
     Inr \<lparr>printed_width =
            2 * 1.96 * uncorrected_standard_deviation (discounted_payoffs S0 K r sigma T Weiner)
              / sqrt (real_of_int n),
          returned = arithmetic_mean (discounted_payoffs S0 K r sigma T Weiner)\<rparr>"
proof -
  have n: "0 \<le> n" "real_of_int n \<noteq> 0" using assms by simp_all
  have "real (length (discounted_payoffs S0 K r sigma T Weiner)) = real_of_int n"
    using assms by (simp add: discounted_payoffs_def)
  then show ?thesis
    unfolding MCCall_payoffs[OF assms(1) n(1) assms(3)]
    using n by (simp add: py_div_def and_then_def np_std_uncorrected arithmetic_mean_def)
qed


lemma exp_minus_one_le_half: "exp (- 1) \<le> (1/2::real)"
proof -
  have "(2::real) \<le> exp 1" using exp_ge_add_one_self[of "1::real"] by simp
  then have "inverse (exp (1::real)) \<le> inverse 2"
    by (intro le_imp_inverse_le) simp_all
  then show ?thesis by (simp add: exp_minus)
qed

lemma payoffs_sigma_1: "discounted_payoffs 2 1 0 1 1 [1/2, - 1/2] = [1, 0]"
  using exp_minus_one_le_half
  by (simp add: discounted_payoffs_def asset_at_maturity_def)








section \<open>The binomial tree with a single step\<close>











section \<open>The stability test\<close>

text \<open>
  Claim C1 says that on every input \<open>FinDiffCall\<close> returns a number exactly when the
  stability inequality holds and the stability string otherwise. With \<open>M = 1\<close> and
  \<open>r = 0\<close> (all other arguments as in the notebook's example) the divisor
  \<open>sigma\<^sup>2 (M - 1) + 0.5 r\<close> is zero and the call raises \<open>ZeroDivisionError\<close>: it returns
  neither a number nor the string.
\<close>

theorem FinDiffCall_zero_divisor_counterexample:
  "FinDiffCall 200 205 0 (7/50) (1/2) 10 1 = Inl ZeroDivisionError"
  by (simp add: FinDiffCall_unfold py_div_def and_then_def stability_divisor_def)

text \<open>
  Claim C1, amended. For every input with \<open>N \<noteq> 0\<close>, \<open>M \<noteq> 0\<close> and a non-zero
  stability divisor: when the inequality \<open>T / N \<le> 1 / (sigma\<^sup>2 (M - 1) + 0.5 r)\<close> is
  violated, \<open>FinDiffCall\<close> returns the string and neither a number nor an exception of
  the grid phase, which is not run; it returns a number only if the inequality holds; and
  when the inequality holds and moreover \<open>N \<ge> 1\<close>, \<open>M \<ge> 1\<close> and \<open>S0 \<noteq> 0\<close>, it
  returns a number.
\<close>

theorem FinDiffCall_stability:
  assumes "N \<noteq> 0" "M \<noteq> 0" "stability_divisor r sigma M \<noteq> 0"
  shows "(\<not> passes_stability r sigma T N M \<longrightarrow>
            FinDiffCall S0 K r sigma T N M = Inr (Message ''time resolution is not great enough''))
       \<and> ((\<exists>p. FinDiffCall S0 K r sigma T N M = Inr (Price p)) \<longrightarrow> passes_stability r sigma T N M)
       \<and> (passes_stability r sigma T N M \<and> 1 \<le> N \<and> 1 \<le> M \<and> S0 \<noteq> 0 \<longrightarrow>
            (\<exists>p. FinDiffCall S0 K r sigma T N M = Inr (Price p)))"
proof (intro conjI impI)
  assume "\<not> passes_stability r sigma T N M"
  then show "FinDiffCall S0 K r sigma T N M = Inr (Message ''time resolution is not great enough'')"
    by (rule FinDiffCall_unstable[OF assms])
next
  assume "\<exists>p. FinDiffCall S0 K r sigma T N M = Inr (Price p)"
  then obtain p where p: "FinDiffCall S0 K r sigma T N M = Inr (Price p)" ..
  show "passes_stability r sigma T N M"
  proof (rule ccontr)
    assume "\<not> passes_stability r sigma T N M"
    from FinDiffCall_unstable[OF assms this, where ?S0.0 = S0 and K = K] p
    show False by simp
  qed
next
  assume a: "passes_stability r sigma T N M \<and> 1 \<le> N \<and> 1 \<le> M \<and> S0 \<noteq> 0"
  then have N: "1 \<le> N" and M: "1 \<le> M" and S0: "S0 \<noteq> 0" by simp_all
  from FinDiff_grid_ok[of N M S0 K r sigma T] N M obtain st where
    st: "FinDiff_grid S0 K r sigma T N M = Inr st" "shaped N M st" by auto
  show "\<exists>p. FinDiffCall S0 K r sigma T N M = Inr (Price p)"
    using FinDiffCall_value[OF N M S0 assms(3) st] a by simp
qed

text \<open>
  The theorem at \<open>N = M = 5\<close>, \<open>sigma = 1/2\<close>, \<open>r = 0\<close>: \<open>T = 5\<close> passes the test
  and gives a number, \<open>T = 10\<close> fails it and gives the string.
\<close>

theorem FinDiffCall_stability_witness:
  "passes_stability 0 (1/2) 5 5 5 \<and> (\<exists>p. FinDiffCall 1 (3/2) 0 (1/2) 5 5 5 = Inr (Price p))
   \<and> \<not> passes_stability 0 (1/2) 10 5 5
   \<and> FinDiffCall 1 (3/2) 0 (1/2) 10 5 5 = Inr (Message ''time resolution is not great enough'')"
proof -
  have d: "stability_divisor 0 (1/2) 5 \<noteq> 0" by (simp add: stability_divisor_def power2_eq_square)
  have s: "passes_stability 0 (1/2) 5 5 5" by (simp add: passes_stability_def stability_divisor_def power2_eq_square)
  have u: "\<not> passes_stability 0 (1/2) 10 5 5" by (simp add: passes_stability_def stability_divisor_def power2_eq_square)
  have n: "(5::int) \<noteq> 0" by simp
  from FinDiffCall_stability[OF n n d, of 5 1 "3/2"] s
  have 1: "\<exists>p. FinDiffCall 1 (3/2) 0 (1/2) 5 5 5 = Inr (Price p)" by simp
  from FinDiffCall_stability[OF n n d, of 10 1 "3/2"] u
  have 2: "FinDiffCall 1 (3/2) 0 (1/2) 10 5 5 = Inr (Message ''time resolution is not great enough'')"
    by blast
  show ?thesis using s u 1 2 by blast
qed

section \<open>The recurrence on the finished grid\<close>



section \<open>The terminal row\<close>

text \<open>
  Claim C3 says that after initialisation \<open>c(0,j) = max (j \<Delta>S - K) 0\<close> for every
  \<open>j\<close> in \<open>[0, M]\<close>, both endpoints included. The boundary loop runs after the payoff
  loop and over every row, row \<open>0\<close> included, so it overwrites \<open>c(0,M)\<close> with
  \<open>S_max\<close>: for \<open>S0 = 200\<close>, \<open>K = 205\<close>, \<open>N = 1\<close>, \<open>M = 2\<close> the entry \<open>c(0,2)\<close> is
  \<open>1000\<close> after initialisation, and the payoff there is \<open>795\<close>.
\<close>

theorem terminal_row_counterexample:
  "peek (FinDiff_init 200 205 1 2) 0 2 = Inr 1000
   \<and> max (real_of_int 2 * (5 * 200 / real_of_int 2) - 205) 0 = (795::real)"
  by code_simp

text \<open>
  Claim C3, amended. For \<open>N \<ge> 0\<close> and \<open>M \<ge> 1\<close>, initialisation completes and leaves
  \<open>c(0,j) = max (j \<Delta>S - K) 0\<close> for every interior \<open>j\<close> in \<open>[1, M - 1]\<close>, with
  \<open>\<Delta>S = 5 S0 / M\<close>, while the two endpoints hold the boundary values \<open>c(0,0) = 0\<close> and
  \<open>c(0,M) = S_max = 5 S0\<close>.
\<close>

theorem terminal_row_after_init:
  assumes "0 \<le> N" "1 \<le> M"
  shows "\<exists>st. FinDiff_init S0 K N M = Inr st
     \<and> (\<forall>j \<in> {1..M - 1}. cell st 0 j = max (real_of_int j * (5 * S0 / real_of_int M) - K) 0)
     \<and> cell st 0 0 = 0 \<and> cell st 0 M = 5 * S0"
proof -
  from FinDiff_init_ok[OF assms, of S0 K] obtain st where
    st: "FinDiff_init S0 K N M = Inr st"
        "\<forall>i j. inside N M i j \<longrightarrow> cell st i j = init_cell S0 K M i j"
    by blast
  have c: "cell st 0 j = init_cell S0 K M 0 j" if "0 \<le> j" "j \<le> M" for j
  proof -
    have "inside N M 0 j" using that assms by (simp add: inside_def)
    with st(2) show ?thesis by blast
  qed
  have "\<forall>j \<in> {1..M - 1}. cell st 0 j = max (real_of_int j * (5 * S0 / real_of_int M) - K) 0"
  proof
    fix j assume "j \<in> {1..M - 1}"
    then have j: "1 \<le> j" "j < M" by auto
    then have "cell st 0 j = init_cell S0 K M 0 j" by (intro c) auto
    then show "cell st 0 j = max (real_of_int j * (5 * S0 / real_of_int M) - K) 0"
      using j by (simp add: init_cell_def)
  qed
  moreover have "cell st 0 0 = 0" using c[of 0] assms by (simp add: init_cell_def)
  moreover have "cell st 0 M = 5 * S0" using c[of M] assms by (simp add: init_cell_def)
  ultimately show ?thesis using st(1) by blast
qed

text \<open>The theorem at \<open>S0 = 200\<close>, \<open>K = 205\<close>, \<open>N = 1\<close>, \<open>M = 2\<close>.\<close>

theorem terminal_row_after_init_witness:
  "(0::int) \<le> 1 \<and> (1::int) \<le> 2 \<and> (\<exists>st. FinDiff_init 200 205 1 2 = Inr st
     \<and> (\<forall>j \<in> {1..2 - 1}. cell st 0 j = max (real_of_int j * (5 * 200 / real_of_int 2) - 205) 0)
     \<and> cell st 0 0 = 0 \<and> cell st 0 2 = 5 * 200)"
proof -
  have h: "(0::int) \<le> 1" "(1::int) \<le> 2" by simp_all
  from terminal_row_after_init[OF h, of 200 205] h show ?thesis by blast
qed

section \<open>The boundary columns\<close>

text \<open>
  Claim C4. Whenever \<open>FinDiffCall\<close> has completed its initialisation (\<open>M = 0\<close> never
  gets there), the recurrence is the sequence of writes \<open>c[i][j]\<close> at the index pairs
  \<open>steps N M\<close>, each of them with \<open>j\<close> in \<open>[1, M - 1]\<close>; and after any number \<open>n\<close> of
  these writes, from none (right after initialisation) to all of them (the finished grid),
  every row \<open>i\<close> in \<open>[0, N]\<close> has \<open>c(i,0) = 0\<close> and \<open>c(i,M) = S_max = 5 S0\<close>.
\<close>

theorem boundary_unchanged:
  assumes M0: "M \<noteq> 0" and init: "FinDiff_init S0 K N M = Inr st0"
  shows "recurrence r sigma delta_t N M st0
           = for_loop (steps N M) (\<lambda>(i, j). update r sigma delta_t i j) st0
     \<and> (\<forall>(i, j) \<in> set (steps N M). 1 \<le> j \<and> j \<le> M - 1)
     \<and> (\<forall>n \<le> length (steps N M).
          \<exists>st. for_loop (take n (steps N M)) (\<lambda>(i, j). update r sigma delta_t i j) st0 = Inr st
             \<and> (\<forall>i \<in> {0..N}. cell st i 0 = 0 \<and> cell st i M = 5 * S0))"
proof (intro conjI allI impI)
  show "recurrence r sigma delta_t N M st0
           = for_loop (steps N M) (\<lambda>(i, j). update r sigma delta_t i j) st0"
    by (rule recurrence_steps)
  show "\<forall>(i, j) \<in> set (steps N M). 1 \<le> j \<and> j \<le> M - 1"
    by (auto simp: set_steps)
  fix n assume "n \<le> length (steps N M)"
  show "\<exists>st. for_loop (take n (steps N M)) (\<lambda>(i, j). update r sigma delta_t i j) st0 = Inr st
             \<and> (\<forall>i \<in> {0..N}. cell st i 0 = 0 \<and> cell st i M = 5 * S0)"
  proof (cases "N < 0")
    case True
    then show ?thesis by (simp add: steps_empty)
  next
    case False
    then have N: "0 \<le> N" by simp
    have "\<not> M < 0" using FinDiff_init_no_columns[OF N, of M S0 K] init by auto
    with M0 have M: "1 \<le> M" by simp
    from FinDiff_init_ok[OF N M, of S0 K] init have
      sh: "shaped N M st0"
      and c: "\<forall>i j. inside N M i j \<longrightarrow> cell st0 i j = init_cell S0 K M i j"
      by auto
    have b: "\<forall>i j. inside N M i j \<and> (j = 0 \<or> j = M) \<longrightarrow> cell st0 i j = init_cell S0 K M i j"
      using c by blast
    show ?thesis
      by (rule boundary_kept[OF N M sh b]) (rule set_take_subset)
  qed
qed

text \<open>
  The theorem at \<open>S0 = 200\<close>, \<open>K = 205\<close>, \<open>N = 1\<close>, \<open>M = 2\<close>, where the recurrence is the
  single write \<open>c[1][1]\<close>.
\<close>

theorem boundary_unchanged_witness:
  "(2::int) \<noteq> 0
   \<and> FinDiff_init 200 205 1 2 =
       Inr \<lparr>grid = [ [0, 295, 1000], [0, 0, 1000]],
            accesses = [(1, 2), (1, 0), (0, 2), (0, 0), (0, 2), (0, 1), (0, 0)]\<rparr>
   \<and> steps 1 2 = [(1, 1)]
   \<and> (1::nat) \<le> length (steps 1 2)
   \<and> (\<exists>st. for_loop (take 1 (steps 1 2)) (\<lambda>(i, j). update (1/50) (7/50) (1/2) i j)
                  \<lparr>grid = [ [0, 295, 1000], [0, 0, 1000]],
                   accesses = [(1, 2), (1, 0), (0, 2), (0, 0), (0, 2), (0, 1), (0, 0)]\<rparr> = Inr st
             \<and> cell st 0 0 = 0 \<and> cell st 0 2 = 5 * 200
             \<and> cell st 1 0 = 0 \<and> cell st 1 2 = 5 * 200)"
proof -
  have m: "(2::int) \<noteq> 0" by simp
  have s: "steps 1 2 = [(1, 1)]" by code_simp
  have l: "(1::nat) \<le> length (steps 1 2)" by (simp add: s)
  from boundary_unchanged[OF m init_1_2, of "1/50" "7/50" "1/2"] l
  obtain st where st: "for_loop (take 1 (steps 1 2)) (\<lambda>(i, j). update (1/50) (7/50) (1/2) i j)
                  \<lparr>grid = [ [0, 295, 1000], [0, 0, 1000]],
                   accesses = [(1, 2), (1, 0), (0, 2), (0, 0), (0, 2), (0, 1), (0, 0)]\<rparr> = Inr st"
    and b: "\<forall>i \<in> {0..1}. cell st i 0 = 0 \<and> cell st i 2 = 5 * 200"
    by blast
  from b have "cell st 0 0 = 0 \<and> cell st 0 2 = 5 * 200" by simp
  moreover from b have "cell st 1 0 = 0 \<and> cell st 1 2 = 5 * 200" by simp
  ultimately show ?thesis using m s l init_1_2 st by blast
qed

section \<open>No validation of the configuration\<close>

text \<open>
  Claim C5 says that \<open>M \<le> 1\<close> and every other invalid configuration is rejected
  before the stability inequality is evaluated. The code has no such check: with
  \<open>M = 1\<close> (and the notebook's other arguments) the stability test is evaluated and
  passed, and the call returns the number \<open>c(N, 0) = 0\<close>.
\<close>

theorem FinDiffCall_accepts_M_1_counterexample:
  "FinDiffCall 200 205 (1/50) (7/50) (1/2) 1 1 = Inr (Price 0)"
  by code_simp

text \<open>
  Claim C5, amended. \<open>FinDiffCall\<close> validates nothing. \<open>N = 0\<close> or \<open>M = 0\<close> raises
  \<open>ZeroDivisionError\<close> where \<open>\<Delta>t\<close> or \<open>\<Delta>S\<close> is computed, before the stability test.
  \<open>M = 1\<close> with \<open>N \<ge> 1\<close>, \<open>S0 \<noteq> 0\<close>, \<open>r \<noteq> 0\<close> and a step that passes the test is
  accepted, and the price returned is \<open>0\<close>. For \<open>N \<ge> 1\<close>, \<open>M \<ge> 1\<close>, \<open>S0 \<noteq> 0\<close> and a
  non-zero stability divisor the call returns a number or the stability string and never
  raises, whatever the signs of \<open>S0\<close>, \<open>K\<close>, \<open>T\<close> and \<open>sigma\<close>.
\<close>

theorem FinDiffCall_no_validation:
  "(N = 0 \<or> M = 0 \<longrightarrow> FinDiffCall S0 K r sigma T N M = Inl ZeroDivisionError)
   \<and> (1 \<le> N \<and> S0 \<noteq> 0 \<and> r \<noteq> 0 \<and> passes_stability r sigma T N 1 \<longrightarrow>
        FinDiffCall S0 K r sigma T N 1 = Inr (Price 0))
   \<and> (1 \<le> N \<and> 1 \<le> M \<and> S0 \<noteq> 0 \<and> stability_divisor r sigma M \<noteq> 0 \<longrightarrow>
        (\<exists>res. FinDiffCall S0 K r sigma T N M = Inr res))"
proof (intro conjI impI)
  assume "N = 0 \<or> M = 0"
  then show "FinDiffCall S0 K r sigma T N M = Inl ZeroDivisionError"
    by (auto simp: FinDiffCall_unfold py_div_def and_then_def)
next
  assume a: "1 \<le> N \<and> S0 \<noteq> 0 \<and> r \<noteq> 0 \<and> passes_stability r sigma T N 1"
  then have N: "1 \<le> N" and S0: "S0 \<noteq> 0" by simp_all
  have d: "stability_divisor r sigma 1 \<noteq> 0" using a by (simp add: stability_divisor_def)
  from FinDiff_grid_ok[of N 1 S0 K r sigma T] N obtain st where
    st: "FinDiff_grid S0 K r sigma T N 1 = Inr st" "shaped N 1 st"
    and b: "\<forall>i j. inside N 1 i j \<and> (i = 0 \<or> j = 0 \<or> j = 1) \<longrightarrow> cell st i j = init_cell S0 K 1 i j"
    by auto
  have "inside N 1 N 0" using N by (simp add: inside_def)
  with b have "cell st N 0 = init_cell S0 K 1 N 0" by blast
  then have "cell st N (1 div 5) = 0" by (simp add: init_cell_def)
  then show "FinDiffCall S0 K r sigma T N 1 = Inr (Price 0)"
    using FinDiffCall_value[OF N _ S0 d st] a by simp
next
  assume a: "1 \<le> N \<and> 1 \<le> M \<and> S0 \<noteq> 0 \<and> stability_divisor r sigma M \<noteq> 0"
  then have N: "1 \<le> N" and M: "1 \<le> M" and S0: "S0 \<noteq> 0"
    and d: "stability_divisor r sigma M \<noteq> 0" by simp_all
  from FinDiff_grid_ok[of N M S0 K r sigma T] N M obtain st where
    st: "FinDiff_grid S0 K r sigma T N M = Inr st" "shaped N M st" by auto
  show "\<exists>res. FinDiffCall S0 K r sigma T N M = Inr res"
    using FinDiffCall_value[OF N M S0 d st] by simp
qed

text \<open>
  The theorem at \<open>N = 0\<close>, at \<open>M = 0\<close>, at \<open>M = 1\<close>, and at negative \<open>S0\<close>,
  \<open>K\<close>, \<open>T\<close> and \<open>sigma\<close>.
\<close>

theorem FinDiffCall_no_validation_witness:
  "FinDiffCall 200 205 (1/50) (7/50) (1/2) 0 500 = Inl ZeroDivisionError
   \<and> FinDiffCall 200 205 (1/50) (7/50) (1/2) 5000 0 = Inl ZeroDivisionError
   \<and> passes_stability (1/50) (7/50) (1/2) 5000 1
   \<and> FinDiffCall 200 205 (1/50) (7/50) (1/2) 5000 1 = Inr (Price 0)
   \<and> stability_divisor (1/50) (- 7/50) 500 \<noteq> 0
   \<and> (\<exists>res. FinDiffCall (- 200) (- 205) (1/50) (- 7/50) (- 1/2) 5000 500 = Inr res)"
proof -
  have s: "passes_stability (1/50) (7/50) (1/2) 5000 1"
    by (simp add: passes_stability_def stability_divisor_def)
  have d: "stability_divisor (1/50) (- 7/50) 500 \<noteq> 0"
    by (simp add: stability_divisor_def power2_eq_square)
  have 1: "FinDiffCall 200 205 (1/50) (7/50) (1/2) 0 500 = Inl ZeroDivisionError"
    using FinDiffCall_no_validation[of 0 500 200 205 "1/50" "7/50" "1/2"] by simp
  have 2: "FinDiffCall 200 205 (1/50) (7/50) (1/2) 5000 0 = Inl ZeroDivisionError"
    using FinDiffCall_no_validation[of 5000 0 200 205 "1/50" "7/50" "1/2"] by simp
  have 3: "FinDiffCall 200 205 (1/50) (7/50) (1/2) 5000 1 = Inr (Price 0)"
    using FinDiffCall_no_validation[of 5000 0 200 205 "1/50" "7/50" "1/2"] s by simp
  have 4: "\<exists>res. FinDiffCall (- 200) (- 205) (1/50) (- 7/50) (- 1/2) 5000 500 = Inr res"
    using FinDiffCall_no_validation[of 5000 500 "- 200" "- 205" "1/50" "- 7/50" "- 1/2"] d
    by simp
  show ?thesis using s d 1 2 3 4 by blast
qed

section \<open>The sign of the price\<close>




section \<open>Subscripts stay inside the grid\<close>

text \<open>
  Claim C7 says that every execution that reaches the grid phase subscripts the grid
  inside \<open>0 \<le> i \<le> N\<close>, \<open>0 \<le> j \<le> M\<close>. Nothing keeps a negative \<open>N\<close> away from the
  grid phase: with \<open>N = -1\<close> the step \<open>T / N\<close> is negative, the stability test passes,
  the grid has no row, and the first write \<open>c[0][0]\<close> raises \<open>IndexError\<close>.
\<close>

theorem FinDiffCall_negative_N_counterexample:
  "passes_stability 0 1 1 (- 1) 2 \<and> FinDiffCall 1 1 0 1 1 (- 1) 2 = Inl IndexError"
proof -
  have "passes_stability 0 1 1 (- 1) 2" by (simp add: passes_stability_def stability_divisor_def)
  moreover have "FinDiffCall 1 1 0 1 1 (- 1) 2 = Inl IndexError" by code_simp
  ultimately show ?thesis by simp
qed

text \<open>
  Claim C7, amended. For \<open>N \<ge> 1\<close> and \<open>M \<ge> 1\<close> the grid phase completes, and every
  read and write it has performed used an index pair inside \<open>0 \<le> i \<le> N\<close>,
  \<open>0 \<le> j \<le> M\<close>, the reads of \<open>c[i-1][j-1]\<close> and \<open>c[i-1][j+1]\<close> included; when moreover
  \<open>S0 \<noteq> 0\<close>, the result column \<open>floor (S0 / \<Delta>S)\<close> lies in \<open>[0, M]\<close> and the final
  read \<open>c[N][j0]\<close> succeeds.
\<close>

theorem grid_accesses_in_bounds:
  assumes "1 \<le> N" "1 \<le> M"
  shows "\<exists>st. FinDiff_grid S0 K r sigma T N M = Inr st \<and> in_bounds N M st
     \<and> (S0 \<noteq> 0 \<longrightarrow>
          (\<exists>j0 v st'. result_index S0 (5 * S0 / real_of_int M) = Inr j0 \<and> 0 \<le> j0 \<and> j0 \<le> M
             \<and> getitem N j0 st = Inr (v, st') \<and> accesses st' = (N, j0) # accesses st
             \<and> in_bounds N M st'))"
proof -
  from FinDiff_grid_ok[of N M S0 K r sigma T] assms obtain st where
    st: "FinDiff_grid S0 K r sigma T N M = Inr st" "shaped N M st" "in_bounds N M st"
    by auto
  have b: "0 \<le> M div 5 \<and> M div 5 \<le> M" using assms by presburger
  have "\<exists>j0 v st'. result_index S0 (5 * S0 / real_of_int M) = Inr j0 \<and> 0 \<le> j0 \<and> j0 \<le> M
             \<and> getitem N j0 st = Inr (v, st') \<and> accesses st' = (N, j0) # accesses st
             \<and> in_bounds N M st'" if S0: "S0 \<noteq> 0"
  proof -
    have j0: "result_index S0 (5 * S0 / real_of_int M) = Inr (M div 5)"
      using result_index_eq[OF S0] assms by simp
    have g: "getitem N (M div 5) st = Inr (cell st N (M div 5), touch N (M div 5) st)"
      using assms b by (intro getitem_ok[OF st(2)]) auto
    have "in_bounds N M (touch N (M div 5) st)"
      using st(3) b assms by (simp add: in_bounds_touch)
    with j0 g b show ?thesis by simp
  qed
  with st(1,3) show ?thesis by blast
qed

text \<open>
  The theorem at \<open>N = 1\<close>, \<open>M = 2\<close>, with the eleven subscriptions of the grid phase
  written out.
\<close>

theorem grid_accesses_in_bounds_witness:
  "(1::int) \<le> 1 \<and> (1::int) \<le> 2 \<and> (1::real) \<noteq> 0
   \<and> (\<exists>st. FinDiff_grid 1 (3/2) 0 (1/2) 1 1 2 = Inr st
        \<and> accesses st = [(1, 1), (0, 2), (0, 1), (0, 0),
                          (1, 2), (1, 0), (0, 2), (0, 0), (0, 2), (0, 1), (0, 0)]
        \<and> in_bounds 1 2 st
        \<and> (\<exists>j0 v st'. result_index 1 (5 * 1 / real_of_int 2) = Inr j0 \<and> 0 \<le> j0 \<and> j0 \<le> 2
             \<and> getitem 1 j0 st = Inr (v, st') \<and> accesses st' = (1, j0) # accesses st
             \<and> in_bounds 1 2 st'))"
proof -
  have h: "(1::int) \<le> 1" "(1::int) \<le> 2" by simp_all
  from grid_accesses_in_bounds[OF h, of 1 "3/2" 0 "1/2" 1] run_1_2 h show ?thesis
    by auto
qed

section \<open>The column the result is read from\<close>



section \<open>Monotonicity in the volatility\<close>




section \<open>The estimate and the width \<open>MCCall\<close> reports\<close>

text \<open>
  Claim C10 says that the reported width is \<open>2 \<cdot> 1.96 \<cdot> s / sqrt n\<close> with \<open>s\<close> the
  sample standard deviation of the discounted payoffs. The code calls \<open>np.std\<close> with
  its default \<open>ddof = 0\<close>, which divides by \<open>n\<close> and not by \<open>n - 1\<close>. With \<open>S0 = 2\<close>,
  \<open>K = 1\<close>, \<open>r = 0\<close>, \<open>sigma = 1\<close>, \<open>T = 1\<close> and the draws \<open>1/2\<close>, \<open>-1/2\<close> the payoffs
  are \<open>1\<close> and \<open>0\<close>: the width printed is computed from \<open>1/2\<close>, and the sample
  standard deviation of the payoffs is \<open>sqrt (1/2)\<close>.
\<close>

theorem MCCall_sample_deviation_counterexample:
  "discounted_payoffs 2 1 0 1 1 [1/2, - 1/2] = [1, 0]
   \<and> MCCall 2 1 0 1 1 2 [1/2, - 1/2]
       = Inr \<lparr>printed_width = 2 * 1.96 * (1/2) / sqrt 2, returned = 1/2\<rparr>
   \<and> sample_standard_deviation [1, 0] = sqrt (1/2)
   \<and> sqrt (1/2) \<noteq> (1/2::real)"
proof -
  have u: "uncorrected_standard_deviation [1, 0] = 1/2"
  proof -
    have "uncorrected_standard_deviation [1, 0] = sqrt ((1/2)\<^sup>2)"
      by (simp add: uncorrected_standard_deviation_def arithmetic_mean_def power2_eq_square)
    then show ?thesis by (simp only: real_sqrt_abs)
  qed
  have m: "arithmetic_mean [1, 0] = 1/2" by (simp add: arithmetic_mean_def)
  have 1: "MCCall 2 1 0 1 1 2 [1/2, - 1/2]
       = Inr \<lparr>printed_width = 2 * 1.96 * (1/2) / sqrt 2, returned = 1/2\<rparr>"
  proof -
    have "MCCall 2 1 0 1 1 2 [1/2, - 1/2] =
       Inr \<lparr>printed_width =
            2 * 1.96 * uncorrected_standard_deviation (discounted_payoffs 2 1 0 1 1 [1/2, - 1/2])
              / sqrt (real_of_int 2),
          returned = arithmetic_mean (discounted_payoffs 2 1 0 1 1 [1/2, - 1/2])\<rparr>"
      by (rule MCCall_value) simp_all
    then show ?thesis unfolding payoffs_sigma_1 u m by simp
  qed
  have 2: "sample_standard_deviation [1, 0] = sqrt (1/2)"
    by (simp add: sample_standard_deviation_def arithmetic_mean_def power2_eq_square)
  have "sqrt (1/2) \<noteq> sqrt (1/4)" by (simp only: real_sqrt_eq_iff)
  moreover have "sqrt (1/4) = (1/2::real)"
    using real_sqrt_abs[of "1/2"] by (simp add: power2_eq_square)
  ultimately have 3: "sqrt (1/2) \<noteq> (1/2::real)" by simp
  show ?thesis using payoffs_sigma_1 1 2 3 by blast
qed

text \<open>
  Claim C10, amended. For \<open>T \<ge> 0\<close>, \<open>n \<ge> 1\<close> and every list of \<open>n\<close> draws, \<open>MCCall\<close>
  returns the arithmetic mean of the \<open>n\<close> discounted payoffs
  \<open>e\<^sup>-\<^sup>r\<^sup>T max (S(T) - K) 0\<close> and prints the width \<open>2 \<cdot> 1.96 \<cdot> s / sqrt n\<close>, where \<open>s\<close> is
  the uncorrected standard deviation of those payoffs (divisor \<open>n\<close>); the width is
  printed, the estimate is the value returned.
\<close>

theorem MCCall_mean_and_width:
  assumes "0 \<le> T" "1 \<le> n" "length Weiner = nat n"
  shows "MCCall S0 K r sigma T n Weiner =
     Inr \<lparr>printed_width =
            2 * 1.96 * uncorrected_standard_deviation (discounted_payoffs S0 K r sigma T Weiner)
              / sqrt (real_of_int n),
          returned = arithmetic_mean (discounted_payoffs S0 K r sigma T Weiner)\<rparr>"
  by (rule MCCall_value[OF assms])

text \<open>The theorem at the two draws \<open>1/2\<close> and \<open>-1/2\<close>.\<close>

theorem MCCall_mean_and_width_witness:
  "(0::real) \<le> 1 \<and> (1::int) \<le> 2 \<and> length [1/2, - 1/2 :: real] = nat 2
   \<and> MCCall 2 1 0 1 1 2 [1/2, - 1/2] =
     Inr \<lparr>printed_width =
            2 * 1.96 * uncorrected_standard_deviation (discounted_payoffs 2 1 0 1 1 [1/2, - 1/2])
              / sqrt (real_of_int 2),
          returned = arithmetic_mean (discounted_payoffs 2 1 0 1 1 [1/2, - 1/2])\<rparr>"
proof -
  have h: "(0::real) \<le> 1" "(1::int) \<le> 2" "length [1/2, - 1/2 :: real] = nat 2"
    by simp_all
  from MCCall_mean_and_width[OF h, of 2 1 0 1] h show ?thesis by blast
qed

end
